theory Spec2Isabelle
  imports Main "HOL-Library.Word"
begin

unbundle bit_operations_syntax

section \<open>The accelerator map editor of gui/accelmap.py\<close>

text \<open>
  The module edits the toolkit's global accelerator map: a table from action paths
  to key combinations. A key combination is a key value (an unsigned integer) and a
  set of modifier bits.
\<close>

type_synonym accel_path = string
type_synonym keyval = nat
type_synonym modifiers = "32 word"

subsection \<open>The accelerator registry\<close>

text \<open>
  Modelled from the spec: the accelerator registry (\<^verbatim>\<open>Gtk.AccelMap\<close>) belongs to the
  toolkit, not to this module. Section 6 of the specification gives its interface:
  enumerate all entries, look an entry up by path, add an entry, and change an entry,
  which returns a success boolean; a deletion is a change to the combination (0, 0).
  Sections 4.3 and 7 say that a change or a deletion can fail, and the source handles
  the failure at each call. The specification names no cause for a failure, so every
  entry carries a flag \<open>locked\<close>: the registry refuses to change a locked entry and
  changes any other. The flag \<open>changed\<close> that the enumeration reports is read and
  dropped at every use in the source, and the model leaves it out. The replace flag
  of a change is passed as the source passes it and has no effect in the model.

  The field \<open>history\<close> is a ghost: every write puts the table it replaces at the end
  of it, so that the tables the registry went through can be inspected.
\<close>

record accel_entry =
  accel_key :: keyval
  accel_mods :: modifiers
  locked :: bool

type_synonym accel_table = "(accel_path \<times> accel_entry) list"

record accel_map =
  table :: accel_table
  history :: "accel_table list"

definition write_table :: "accel_map \<Rightarrow> accel_table \<Rightarrow> accel_map" where
  "write_table g t = g\<lparr>table := t, history := history g @ [table g]\<rparr>"

definition set_combo :: "accel_path \<Rightarrow> keyval \<Rightarrow> modifiers \<Rightarrow> accel_table \<Rightarrow> accel_table" where
  "set_combo p k m t =
     map (\<lambda>(q, e). if q = p then (q, e\<lparr>accel_key := k, accel_mods := m\<rparr>) else (q, e)) t"

definition AccelMap_lookup_entry :: "accel_map \<Rightarrow> accel_path \<Rightarrow> bool \<times> accel_entry option" where
  "AccelMap_lookup_entry g p = (map_of (table g) p \<noteq> None, map_of (table g) p)"

definition AccelMap_add_entry :: "accel_map \<Rightarrow> accel_path \<Rightarrow> keyval \<Rightarrow> modifiers \<Rightarrow> accel_map" where
  "AccelMap_add_entry g p k m =
     (case map_of (table g) p of
        Some e \<Rightarrow> g
      | None \<Rightarrow>
          write_table g (table g @ [(p, \<lparr>accel_key = k, accel_mods = m, locked = False\<rparr>)]))"

definition AccelMap_change_entry ::
  "accel_map \<Rightarrow> accel_path \<Rightarrow> keyval \<Rightarrow> modifiers \<Rightarrow> bool \<Rightarrow> bool \<times> accel_map" where
  "AccelMap_change_entry g p k m replace =
     (case map_of (table g) p of
        None \<Rightarrow> (False, g)
      | Some e \<Rightarrow>
          if locked e then (False, g)
          else (True, write_table g (set_combo p k m (table g))))"

subsection \<open>Enumerating and committing (lines 144 to 153 and 363 to 394)\<close>

datatype error = AssertionError | TypeError

definition get_accel_map_entries :: "accel_map \<Rightarrow> (accel_path \<times> keyval \<times> modifiers) list" where
  "get_accel_map_entries g = map (\<lambda>(p, e). (p, accel_key e, accel_mods e)) (table g)"

text \<open>
  The loop of \<^verbatim>\<open>_delete_clashing_accelmap_entries\<close> runs over the list that was read
  before the first deletion. Both outcomes of a deletion only write a log line.
\<close>

fun delete_clashing_loop ::
  "(accel_path \<times> keyval \<times> modifiers) list \<Rightarrow> keyval \<Rightarrow> modifiers \<Rightarrow> accel_path
     \<Rightarrow> accel_map \<Rightarrow> accel_map" where
  "delete_clashing_loop [] keyval mods path_to_keep g = g"
| "delete_clashing_loop ((path, k, m) # es) keyval mods path_to_keep g =
     (if path = path_to_keep then delete_clashing_loop es keyval mods path_to_keep g
      else if (k, m) \<noteq> (keyval, mods) then delete_clashing_loop es keyval mods path_to_keep g
      else delete_clashing_loop es keyval mods path_to_keep
             (snd (AccelMap_change_entry g path 0 0 True)))"

definition delete_clashing_accelmap_entries ::
  "accel_map \<Rightarrow> keyval \<Rightarrow> modifiers \<Rightarrow> accel_path \<Rightarrow> accel_map" where
  "delete_clashing_accelmap_entries g keyval mods path_to_keep =
     delete_clashing_loop (get_accel_map_entries g) keyval mods path_to_keep g"

definition set_accelmap_entry ::
  "accel_map \<Rightarrow> accel_path \<Rightarrow> keyval \<Rightarrow> modifiers \<Rightarrow> error + accel_map" where
  "set_accelmap_entry g path keyval mods =
     (let g1 = delete_clashing_accelmap_entries g keyval mods path;
          entry_exists = fst (AccelMap_lookup_entry g1 path);
          g2 = (if entry_exists then snd (AccelMap_change_entry g1 path keyval mods True)
                else AccelMap_add_entry g1 path keyval mods);
          entry_exists' = fst (AccelMap_lookup_entry g2 path)
      in if entry_exists' then Inr g2 else Inl AssertionError)"

subsection \<open>The list of actions (lines 103 to 129)\<close>

text \<open>
  The toolkit functions that the module calls and cannot be read from its source are
  parameters: the keyboard layout's translation, lowercasing of a key value, the
  default modifier mask, the validity rule for accelerators, and the label and the
  name of a combination. \<^verbatim>\<open>escape\<close> is imported from \<^verbatim>\<open>lib.helpers\<close>, which is not part
  of the source given, and is a parameter too. The message catalogue is taken to be
  empty, so that \<^verbatim>\<open>_()\<close> returns its argument.
\<close>

record toolkit =
  translate_keyboard_state ::
    "nat \<Rightarrow> modifiers \<Rightarrow> nat \<Rightarrow> bool \<times> keyval \<times> int \<times> int \<times> modifiers"
  keyval_to_lower :: "keyval \<Rightarrow> keyval"
  accelerator_get_default_mod_mask :: modifiers
  accelerator_valid :: "keyval \<Rightarrow> modifiers \<Rightarrow> bool"
  accelerator_get_label :: "keyval \<Rightarrow> modifiers \<Rightarrow> string"
  accelerator_name :: "keyval \<Rightarrow> modifiers \<Rightarrow> string"
  escape :: "string \<Rightarrow> string"

record action =
  action_get_name :: string
  action_get_label :: "string option"

record action_group =
  group_get_name :: string
  group_list_actions :: "action list"

type_synonym ui_manager = "action_group list"

type_synonym row = "string option list"

definition COLUMN_TYPES :: "nat list" where "COLUMN_TYPES = [0, 1, 2]"
definition PATH_COLUMN :: nat where "PATH_COLUMN = 0"
definition ACCEL_LABEL_COLUMN :: nat where "ACCEL_LABEL_COLUMN = 1"
definition ACTION_LABEL_COLUMN :: nat where "ACTION_LABEL_COLUMN = 2"

record editor =
  ui_manager :: "ui_manager option"
  store :: "row list"
  action_labels :: "accel_path \<rightharpoonup> string"

fun accel_labels_loop ::
  "toolkit \<Rightarrow> (accel_path \<times> keyval \<times> modifiers) list \<Rightarrow> (accel_path \<rightharpoonup> string)
     \<Rightarrow> (accel_path \<rightharpoonup> string)" where
  "accel_labels_loop tk [] accel_labels = accel_labels"
| "accel_labels_loop tk ((path, key, mods) # es) accel_labels =
     accel_labels_loop tk es (accel_labels(path \<mapsto> accelerator_get_label tk key mods))"

definition action_path :: "string \<Rightarrow> string \<Rightarrow> accel_path" where
  "action_path group_name action_name = ''<Actions>/'' @ group_name @ ''/'' @ action_name"

text \<open>
  \<^verbatim>\<open>if not action_label: continue\<close> skips an action whose label is \<^verbatim>\<open>None\<close> or the
  empty string.
\<close>

fun actions_loop ::
  "string \<Rightarrow> action list \<Rightarrow> (accel_path \<rightharpoonup> string) \<Rightarrow> editor \<Rightarrow> editor" where
  "actions_loop group_name [] accel_labels ed = ed"
| "actions_loop group_name (a # as) accel_labels ed =
     (let path = action_path group_name (action_get_name a)
      in case action_get_label a of
           None \<Rightarrow> actions_loop group_name as accel_labels ed
         | Some action_label \<Rightarrow>
             if action_label = [] then actions_loop group_name as accel_labels ed
             else
               (let accel_label = accel_labels path;
                    row = map (\<lambda>t. None) COLUMN_TYPES;
                    row = row[PATH_COLUMN := Some path];
                    row = row[ACTION_LABEL_COLUMN := Some action_label];
                    row = row[ACCEL_LABEL_COLUMN := accel_label]
                in actions_loop group_name as accel_labels
                     (ed\<lparr>action_labels := (action_labels ed)(path \<mapsto> action_label),
                         store := store ed @ [row]\<rparr>)))"

fun groups_loop :: "action_group list \<Rightarrow> (accel_path \<rightharpoonup> string) \<Rightarrow> editor \<Rightarrow> editor" where
  "groups_loop [] accel_labels ed = ed"
| "groups_loop (g # gs) accel_labels ed =
     groups_loop gs accel_labels
       (actions_loop (group_get_name g) (group_list_actions g) accel_labels ed)"

text \<open>
  When the editor has no manager yet it takes the application's; the application
  module is not part of the source given, so its manager is a parameter.
\<close>

definition init_from_accel_map ::
  "toolkit \<Rightarrow> ui_manager option \<Rightarrow> accel_map \<Rightarrow> editor \<Rightarrow> error + editor" where
  "init_from_accel_map tk app_ui_manager g ed =
     (let ed = (if ui_manager ed = None then ed\<lparr>ui_manager := app_ui_manager\<rparr> else ed)
      in case ui_manager ed of
           None \<Rightarrow> Inl AssertionError
         | Some groups \<Rightarrow>
             (let ed = ed\<lparr>action_labels := Map.empty, store := []\<rparr>;
                  accel_labels = accel_labels_loop tk (get_accel_map_entries g) Map.empty
              in Inr (groups_loop groups accel_labels ed)))"

subsection \<open>The capture dialog (lines 161 to 361)\<close>

text \<open>
  A key event carries the fields the handler reads. The dialog carries the text of
  its key label, the markup of its hint label, and the attributes that
  \<^verbatim>\<open>_accel_editing_started_cb\<close> sets on it. The editing widget records whether
  \<^verbatim>\<open>editing_done\<close> and \<^verbatim>\<open>remove_widget\<close> were called on it.
\<close>

datatype event_type = KEY_PRESS | KEY_RELEASE

record event_key =
  event_type :: event_type
  event_is_modifier :: bool
  event_keyval :: keyval
  event_hardware_keycode :: nat
  event_state :: modifiers
  event_group :: nat

datatype response_type = REJECT | CANCEL | OK | DELETE_EVENT

record dialog =
  accel_label_widget :: string
  hint_widget :: string
  initial_accel_label :: "string option"
  dialog_accel_path :: accel_path
  result_keyval :: "keyval option"
  result_mods :: "modifiers option"
  destroyed :: bool

record editable =
  sensitive :: bool
  editing_done :: bool
  widget_removed :: bool

record ui =
  accel_map :: accel_map
  dialog :: dialog
  editable :: editable

text \<open>The key values and the modifier bit are those of the toolkit's headers.\<close>

definition KEY_Return :: keyval where "KEY_Return = 65293"
definition KEY_Escape :: keyval where "KEY_Escape = 65307"
definition KEY_BackSpace :: keyval where "KEY_BackSpace = 65288"
definition SHIFT_MASK :: modifiers where "SHIFT_MASK = 1"

definition USE_NORMAL_DIALOG_KEYS :: bool where "USE_NORMAL_DIALOG_KEYS = True"

fun str :: "string option \<Rightarrow> string" where
  "str None = ''None''"
| "str (Some s) = s"

definition edit_dialog_set_hint :: "dialog \<Rightarrow> string \<Rightarrow> dialog" where
  "edit_dialog_set_hint d markup = d\<lparr>hint_widget := markup\<rparr>"

definition edit_dialog_set_standard_hint :: "dialog \<Rightarrow> dialog" where
  "edit_dialog_set_standard_hint d =
     edit_dialog_set_hint d ''Press keys to update this assignment''"

text \<open>
  The part of \<^verbatim>\<open>_accel_editing_started_cb\<close> that sets the state the handlers read;
  the label, the path and the widget come from the row being edited.
\<close>

definition accel_editing_started_cb ::
  "accel_map \<Rightarrow> editable \<Rightarrow> string option \<Rightarrow> accel_path \<Rightarrow> ui" where
  "accel_editing_started_cb g ed accel_label accel_path =
     \<lparr>accel_map = g,
      dialog = edit_dialog_set_standard_hint
        \<lparr>accel_label_widget = str accel_label, hint_widget = [],
         initial_accel_label = accel_label, dialog_accel_path = accel_path,
         result_keyval = None, result_mods = None, destroyed = False\<rparr>,
      editable = ed\<lparr>sensitive := False\<rparr>\<rparr>"

text \<open>
  \<^verbatim>\<open>_edit_dialog_response_cb\<close>. The combination reaches the toolkit only when the
  pending key is set; a modifier set that is still \<^verbatim>\<open>None\<close> is then refused by the
  binding's type check.
\<close>

definition edit_dialog_response_cb :: "ui \<Rightarrow> response_type \<Rightarrow> accel_path \<Rightarrow> error + ui" where
  "edit_dialog_response_cb w response_id path =
     (let mods = result_mods (dialog w);
          keyval = result_keyval (dialog w);
          done = (\<lambda>g. Inr (w\<lparr>accel_map := g, editable := (editable w)\<lparr>editing_done := True\<rparr>\<rparr>));
          r = (if response_id = REJECT then
                 (let entry_exists = fst (AccelMap_lookup_entry (accel_map w) path)
                  in if entry_exists
                     then done (snd (AccelMap_change_entry (accel_map w) path 0 0 True))
                     else done (accel_map w))
               else if response_id = OK then
                 (case keyval of
                    None \<Rightarrow> done (accel_map w)
                  | Some kv \<Rightarrow>
                      (case mods of
                         None \<Rightarrow> Inl TypeError
                       | Some ms \<Rightarrow>
                           (case set_accelmap_entry (accel_map w) path kv ms of
                              Inl err \<Rightarrow> Inl err
                            | Inr g \<Rightarrow> done g)))
               else Inr w)
      in case r of
           Inl err \<Rightarrow> Inl err
         | Inr w' \<Rightarrow>
             Inr (w'\<lparr>editable := (editable w')\<lparr>widget_removed := True\<rparr>,
                     dialog := (dialog w')\<lparr>destroyed := True\<rparr>\<rparr>))"

text \<open>
  \<^verbatim>\<open>dialog.response(id)\<close> emits the dialog's response signal; the handler connected
  to it at lines 181 to 186 is \<^verbatim>\<open>_edit_dialog_response_cb\<close> with the path of the row.
\<close>

definition dialog_response :: "ui \<Rightarrow> response_type \<Rightarrow> error + ui" where
  "dialog_response w response_id =
     edit_dialog_response_cb w response_id (dialog_accel_path (dialog w))"

fun find_clash ::
  "(accel_path \<times> keyval \<times> modifiers) list \<Rightarrow> keyval \<Rightarrow> modifiers \<Rightarrow> accel_path option" where
  "find_clash [] keyval mods = None"
| "find_clash ((path, kv, m) # es) keyval mods =
     (if (kv, m) = (keyval, mods) then Some path else find_clash es keyval mods)"

definition handled :: "error + ui \<Rightarrow> error + bool \<times> ui" where
  "handled r = (case r of Inl err \<Rightarrow> Inl err | Inr w \<Rightarrow> Inr (True, w))"

text \<open>
  Lines 284 to 303 of the handler, on their own: the combination that a key press
  stands for. The layout translates the hardware key; the key value is the lowercased
  translation; the modifiers are those of the event within the default mask, without
  the ones the translation consumed, and with Shift when the lowercased key value
  differs from the key value of the event.
\<close>

definition resolve_accel :: "toolkit \<Rightarrow> event_key \<Rightarrow> keyval \<times> modifiers" where
  "resolve_accel tk event =
     (let (bound, keyval, effective_group, level, consumed_modifiers) =
            translate_keyboard_state tk (event_hardware_keycode event) (event_state event)
              (event_group event);
          keyval = keyval_to_lower tk keyval;
          mods = event_state event AND accelerator_get_default_mod_mask tk
                   AND NOT consumed_modifiers;
          mods = (if keyval \<noteq> event_keyval event then mods OR SHIFT_MASK else mods)
      in (keyval, mods))"

definition edit_dialog_key_press_cb ::
  "toolkit \<Rightarrow> (accel_path \<rightharpoonup> string) \<Rightarrow> ui \<Rightarrow> event_key \<Rightarrow> error + bool \<times> ui" where
  "edit_dialog_key_press_cb tk labels w event =
     (if event_type event \<noteq> KEY_PRESS then Inr (False, w)
      else if event_is_modifier event then Inr (False, w)
      else if USE_NORMAL_DIALOG_KEYS \<and> event_keyval event = KEY_Return
        then handled (dialog_response w OK)
      else if USE_NORMAL_DIALOG_KEYS \<and> event_keyval event = KEY_Escape
        then handled (dialog_response w CANCEL)
      else if USE_NORMAL_DIALOG_KEYS \<and> event_keyval event = KEY_BackSpace
        then handled (dialog_response w REJECT)
      else
        (let (keyval, mods) = resolve_accel tk event;
             accel_label = accelerator_get_label tk keyval mods
         in if \<not> accelerator_valid tk keyval mods then Inr (True, w)
            else
              (let clash_accel_path = find_clash (get_accel_map_entries (accel_map w)) keyval mods;
                   d = dialog w;
                   changed =
                     (edit_dialog_set_standard_hint d)
                       \<lparr>accel_label_widget := accel_label @ '' (changed)''\<rparr>;
                   d = (case clash_accel_path of
                          None \<Rightarrow> changed
                        | Some p \<Rightarrow>
                            if p = dialog_accel_path d then
                              (edit_dialog_set_standard_hint d)\<lparr>accel_label_widget := accel_label\<rparr>
                            else if p \<noteq> [] then
                              (let clash_action_label =
                                     (case labels p of None \<Rightarrow> ''Unknown Action'' | Some l \<Rightarrow> l)
                               in (edit_dialog_set_hint d
                                     (''<b>'' @ escape tk accel_label @ '' is already in use for ''
                                      @ [CHR 0x27] @ escape tk clash_action_label @ [CHR 0x27]
                                      @ ''. The existing assignment will be replaced.</b>''))
                                    \<lparr>accel_label_widget := accel_label @ '' (replace)''\<rparr>)
                            else changed)
               in Inr (True, w\<lparr>dialog := d\<lparr>result_mods := Some mods,
                                             result_keyval := Some keyval\<rparr>\<rparr>))))"

subsection \<open>Notions used to state the properties\<close>

text \<open>
  The source deletes a binding by writing the combination (0, 0) (lines 353 and 371),
  so an entry that holds (0, 0) has no accelerator, and a path is bound to a
  combination when its entry holds it and it is not (0, 0).
\<close>

definition clear_combo :: "accel_entry \<Rightarrow> accel_entry" where
  "clear_combo e = e\<lparr>accel_key := 0, accel_mods := 0\<rparr>"

definition unlocked :: "accel_table \<Rightarrow> accel_path \<Rightarrow> bool" where
  "unlocked t q = (case map_of t q of Some e \<Rightarrow> \<not> locked e | None \<Rightarrow> False)"

definition holds :: "accel_table \<Rightarrow> accel_path \<Rightarrow> keyval \<Rightarrow> modifiers \<Rightarrow> bool" where
  "holds t p k m =
     (case map_of t p of Some e \<Rightarrow> accel_key e = k \<and> accel_mods e = m | None \<Rightarrow> False)"

definition bound_to :: "accel_table \<Rightarrow> accel_path \<Rightarrow> keyval \<Rightarrow> modifiers \<Rightarrow> bool" where
  "bound_to t p k m = ((k, m) \<noteq> (0, 0) \<and> holds t p k m)"

text \<open>The registry keeps one entry for a path.\<close>

definition wellformed :: "accel_table \<Rightarrow> bool" where
  "wellformed t = distinct (map fst t)"

text \<open>At most one path is bound to a combination.\<close>

definition unique_combos :: "accel_table \<Rightarrow> bool" where
  "unique_combos t =
     (\<forall>(p, e)\<in>set t. \<forall>(q, e')\<in>set t.
        p \<noteq> q \<and> accel_key e = accel_key e' \<and> accel_mods e = accel_mods e'
          \<longrightarrow> (accel_key e, accel_mods e) = (0, 0))"

text \<open>The registry accepts the deletion of every entry that clashes with a commit.\<close>

definition deletions_accepted ::
  "accel_table \<Rightarrow> accel_path \<Rightarrow> keyval \<Rightarrow> modifiers \<Rightarrow> bool" where
  "deletions_accepted t P k m =
     (\<forall>(q, e)\<in>set t. q \<noteq> P \<and> accel_key e = k \<and> accel_mods e = m \<longrightarrow> unlocked t q)"

text \<open>
  The three keys that the dialog takes as responses. A key event that the toolkit
  delivers carries the key value that the layout resolves from the hardware key, the
  state and the group of the event: the toolkit fills the field in with that same
  translation. Lowercasing sets the three keys apart when it gives one of them only
  for one of them.
\<close>

definition dialog_keys :: "keyval set" where
  "dialog_keys = {KEY_Return, KEY_Escape, KEY_BackSpace}"

definition delivered :: "toolkit \<Rightarrow> event_key \<Rightarrow> bool" where
  "delivered tk event =
     (fst (snd (translate_keyboard_state tk (event_hardware_keycode event) (event_state event)
                  (event_group event))) = event_keyval event)"

definition lower_apart :: "toolkit \<Rightarrow> keyval \<Rightarrow> bool" where
  "lower_apart tk k = (keyval_to_lower tk k \<in> dialog_keys \<longrightarrow> k \<in> dialog_keys)"

text \<open>
  The rows that the specification asks of a rebuild: one for every action with a
  label that is not empty, in the order of the groups and of their actions, with the
  path, the label of the path's entry when it has one, and the label of the action.
\<close>

definition labelled :: "action \<Rightarrow> bool" where
  "labelled a = (case action_get_label a of None \<Rightarrow> False | Some l \<Rightarrow> l \<noteq> [])"

definition all_actions :: "ui_manager \<Rightarrow> (string \<times> action) list" where
  "all_actions groups =
     concat (map (\<lambda>g. map (\<lambda>a. (group_get_name g, a)) (group_list_actions g)) groups)"

definition accel_label_of :: "toolkit \<Rightarrow> accel_map \<Rightarrow> accel_path \<Rightarrow> string option" where
  "accel_label_of tk g path =
     map_option (\<lambda>e. accelerator_get_label tk (accel_key e) (accel_mods e))
       (map_of (rev (table g)) path)"

definition row_of :: "toolkit \<Rightarrow> accel_map \<Rightarrow> string \<times> action \<Rightarrow> row" where
  "row_of tk g ga =
     [Some (action_path (fst ga) (action_get_name (snd ga))),
      accel_label_of tk g (action_path (fst ga) (action_get_name (snd ga))),
      action_get_label (snd ga)]"

definition rows_of :: "toolkit \<Rightarrow> accel_map \<Rightarrow> ui_manager \<Rightarrow> row list" where
  "rows_of tk g groups = map (row_of tk g) (filter (\<lambda>ga. labelled (snd ga)) (all_actions groups))"

text \<open>The second step of a commit on its own: change the entry of the path, or add one.\<close>

definition upsert :: "accel_map \<Rightarrow> accel_path \<Rightarrow> keyval \<Rightarrow> modifiers \<Rightarrow> accel_map" where
  "upsert g p k m =
     (if map_of (table g) p \<noteq> None then snd (AccelMap_change_entry g p k m True)
      else AccelMap_add_entry g p k m)"

subsection \<open>Two small registries\<close>

text \<open>
  Key value 115 is the letter s, 122 the letter z, and modifier bit 4 is Control. In
  the second registry the toolkit refuses to change the entry of A.
\<close>

definition reg_free :: accel_map where
  "reg_free =
     \<lparr>table = [(''A'', \<lparr>accel_key = 115, accel_mods = 4, locked = False\<rparr>),
               (''B'', \<lparr>accel_key = 122, accel_mods = 4, locked = False\<rparr>),
               (''C'', \<lparr>accel_key = 0, accel_mods = 0, locked = False\<rparr>)],
      history = []\<rparr>"

definition reg_locked :: accel_map where
  "reg_locked =
     \<lparr>table = [(''A'', \<lparr>accel_key = 115, accel_mods = 4, locked = True\<rparr>),
               (''B'', \<lparr>accel_key = 0, accel_mods = 0, locked = False\<rparr>)],
      history = []\<rparr>"

subsection \<open>A small layout, a dialog and a list of actions\<close>

text \<open>
  A toolkit with four keys of a US layout: hardware key 44 gives j (106) and with
  Shift J (74), key 21 gives = (61) and with Shift + (43), key 36 gives Return and key
  50 the left Shift key (65505). The dialog is the one opened on the row of path B.
  \<open>press\<close> builds a key press event from its key value, hardware key, modifier
  state and modifier flag.
\<close>

definition us_layout :: "nat \<Rightarrow> modifiers \<Rightarrow> nat \<Rightarrow> bool \<times> keyval \<times> int \<times> int \<times> modifiers" where
  "us_layout keycode state grp =
     (if keycode = 44 then (True, if state AND 1 = 0 then 106 else 74, 0, 0, 1)
      else if keycode = 21 then (True, if state AND 1 = 0 then 61 else 43, 0, 0, 1)
      else if keycode = 36 then (True, 65293, 0, 0, 0)
      else if keycode = 50 then (True, 65505, 0, 0, 0)
      else (False, 0, 0, 0, 0))"

definition tk_us :: toolkit where
  "tk_us =
     \<lparr>translate_keyboard_state = us_layout,
      keyval_to_lower = (\<lambda>k. if 65 \<le> k \<and> k \<le> 90 then k + 32 else k),
      accelerator_get_default_mod_mask = 469762061,
      accelerator_valid = (\<lambda>k m. 32 \<le> k \<and> k \<noteq> 65505),
      accelerator_get_label = (\<lambda>k m. (if m AND 1 = 0 then [] else ''Shift+'') @ [char_of k]),
      accelerator_name = (\<lambda>k m. (if m AND 1 = 0 then [] else ''<Shift>'') @ [char_of k]),
      escape = (\<lambda>s. s)\<rparr>"

definition ui_start :: ui where
  "ui_start =
     accel_editing_started_cb reg_free
       \<lparr>sensitive = True, editing_done = False, widget_removed = False\<rparr> (Some ''Ctrl+Z'') ''B''"

definition press :: "keyval \<Rightarrow> nat \<Rightarrow> modifiers \<Rightarrow> bool \<Rightarrow> event_key" where
  "press k keycode state is_mod =
     \<lparr>event_type = KEY_PRESS, event_is_modifier = is_mod, event_keyval = k,
      event_hardware_keycode = keycode, event_state = state, event_group = 0\<rparr>"

definition actions_example :: ui_manager where
  "actions_example =
     [\<lparr>group_get_name = ''WindowActions'',
       group_list_actions =
         [\<lparr>action_get_name = ''Save'', action_get_label = Some ''Save''\<rparr>,
          \<lparr>action_get_name = ''Hidden'', action_get_label = None\<rparr>,
          \<lparr>action_get_name = ''Blank'', action_get_label = Some []\<rparr>]\<rparr>]"

definition editor_new :: editor where
  "editor_new = \<lparr>ui_manager = None, store = [], action_labels = Map.empty\<rparr>"

section \<open>Properties of the commit\<close>

subsection \<open>What a change, the deletion loop and the commit do to the table\<close>

lemma map_fst_set_combo: "map fst (set_combo p k m t) = map fst t"
  by (induction t) (auto simp: set_combo_def)

lemma map_of_set_combo:
  "map_of (set_combo p k m t) q =
     (if q = p then map_option (\<lambda>e. e\<lparr>accel_key := k, accel_mods := m\<rparr>) (map_of t q)
      else map_of t q)"
  by (induction t) (auto simp: set_combo_def)

lemma map_of_map_if:
  "map_of (map (\<lambda>(q, e). if c q then (q, h e) else (q, e)) t) q =
     (if c q then map_option h (map_of t q) else map_of t q)"
  by (induction t) auto

lemma unlocked_set_combo: "unlocked (set_combo p k m t) q = unlocked t q"
  by (simp add: unlocked_def map_of_set_combo split: option.splits)

lemma change_entry_table:
  "table (snd (AccelMap_change_entry g p k m r)) =
     (if unlocked (table g) p then set_combo p k m (table g) else table g)"
  by (simp add: AccelMap_change_entry_def write_table_def unlocked_def split: option.splits)

lemma change_entry_history:
  "history (snd (AccelMap_change_entry g p k m r)) =
     (if unlocked (table g) p then history g @ [table g] else history g)"
  by (simp add: AccelMap_change_entry_def write_table_def unlocked_def split: option.splits)

lemma entries_mem:
  "(q, k, m) \<in> set (get_accel_map_entries g) \<longleftrightarrow>
     (\<exists>e. (q, e) \<in> set (table g) \<and> accel_key e = k \<and> accel_mods e = m)"
  by (force simp: get_accel_map_entries_def)

lemma delete_clashing_loop_inv:
  assumes step: "\<And>t p. I t \<Longrightarrow> p \<noteq> keep \<Longrightarrow> (p, keyval, mods) \<in> set es \<Longrightarrow> I (set_combo p 0 0 t)"
    and weaken: "\<And>t. I t \<Longrightarrow> J t"
    and now: "I (table g)" and past: "\<forall>s\<in>set (history g). J s"
  shows "I (table (delete_clashing_loop es keyval mods keep g)) \<and>
         (\<forall>s\<in>set (history (delete_clashing_loop es keyval mods keep g)). J s)"
  using step now past
proof (induction es arbitrary: g)
  case Nil
  then show ?case by simp
next
  case (Cons x es)
  obtain path k m where x: "x = (path, k, m)" by (cases x)
  let ?g' = "snd (AccelMap_change_entry g path 0 0 True)"
  have rest: "\<And>t p. I t \<Longrightarrow> p \<noteq> keep \<Longrightarrow> (p, keyval, mods) \<in> set es \<Longrightarrow> I (set_combo p 0 0 t)"
    using Cons.prems(1) by simp
  show ?case
  proof (cases "path \<noteq> keep \<and> (k, m) = (keyval, mods)")
    case False
    then show ?thesis using Cons.IH [OF rest Cons.prems(2) Cons.prems(3)] x by auto
  next
    case True
    have "I (set_combo path 0 0 (table g))"
      using Cons.prems(1) [OF Cons.prems(2), of path] True x by simp
    then have a: "I (table ?g')"
      using Cons.prems(2) by (simp add: change_entry_table)
    have b: "\<forall>s\<in>set (history ?g'). J s"
      using Cons.prems(2,3) weaken by (simp add: change_entry_history)
    show ?thesis using Cons.IH [OF rest a b] True x by simp
  qed
qed

lemma delete_clashing_loop_table:
  "table (delete_clashing_loop es keyval mods keep g) =
     map (\<lambda>(q, e). if q \<noteq> keep \<and> (q, keyval, mods) \<in> set es \<and> unlocked (table g) q
                     then (q, clear_combo e) else (q, e)) (table g)"
proof (induction es arbitrary: g)
  case Nil
  then show ?case by (simp add: case_prod_unfold)
next
  case (Cons x es)
  obtain path k m where x: "x = (path, k, m)" by (cases x)
  show ?case
  proof (cases "path \<noteq> keep \<and> (k, m) = (keyval, mods)")
    case False
    then show ?thesis using Cons.IH [of g] x by (auto intro!: map_cong)
  next
    case True
    let ?g' = "snd (AccelMap_change_entry g path 0 0 True)"
    have step: "delete_clashing_loop (x # es) keyval mods keep g =
          delete_clashing_loop es keyval mods keep ?g'"
      using True x by simp
    show ?thesis
    proof (cases "unlocked (table g) path")
      case False
      then have "table ?g' = table g" by (simp add: change_entry_table)
      then show ?thesis
        using True x False unfolding step Cons.IH [of ?g'] by (auto intro!: map_cong)
    next
      case u: True
      then have "table ?g' = set_combo path 0 0 (table g)"
        by (simp add: change_entry_table)
      then have "table (delete_clashing_loop es keyval mods keep ?g') =
         map (\<lambda>(q, e). if q \<noteq> keep \<and> (q, keyval, mods) \<in> set es \<and> unlocked (table g) q
                     then (q, clear_combo e) else (q, e)) (set_combo path 0 0 (table g))"
        unfolding Cons.IH [of ?g'] by (simp add: unlocked_set_combo)
      then show ?thesis
        using True x u unfolding step
        by (auto simp: set_combo_def clear_combo_def intro!: map_cong)
    qed
  qed
qed

lemma delete_clashing_lookup:
  "map_of (table (delete_clashing_accelmap_entries g k m keep)) q =
     (if q \<noteq> keep \<and> (q, k, m) \<in> set (get_accel_map_entries g) \<and> unlocked (table g) q
      then map_option clear_combo (map_of (table g) q) else map_of (table g) q)"
  unfolding delete_clashing_accelmap_entries_def delete_clashing_loop_table
  by (rule map_of_map_if)

lemma delete_clashing_paths:
  "map fst (table (delete_clashing_accelmap_entries g k m keep)) = map fst (table g)"
  unfolding delete_clashing_accelmap_entries_def delete_clashing_loop_table
  by (simp add: case_prod_unfold comp_def)

lemma upsert_lookup:
  "map_of (table (upsert g p k m)) q =
     (if q \<noteq> p then map_of (table g) q
      else case map_of (table g) p of
             None \<Rightarrow> Some \<lparr>accel_key = k, accel_mods = m, locked = False\<rparr>
           | Some e \<Rightarrow> if locked e then Some e else Some (e\<lparr>accel_key := k, accel_mods := m\<rparr>))"
  by (auto simp: upsert_def change_entry_table map_of_set_combo unlocked_def
      AccelMap_add_entry_def write_table_def map_add_def split: option.splits)

lemma set_accelmap_entry_eq:
  "set_accelmap_entry g p k m = Inr (upsert (delete_clashing_accelmap_entries g k m p) p k m)"
proof -
  let ?g1 = "delete_clashing_accelmap_entries g k m p"
  have "map_of (table (upsert ?g1 p k m)) p \<noteq> None"
    by (simp add: upsert_lookup split: option.splits)
  then show ?thesis
    by (simp add: set_accelmap_entry_def AccelMap_lookup_entry_def upsert_def Let_def)
qed


lemma set_combo_mem:
  "q \<noteq> p \<Longrightarrow> (q, e) \<in> set (set_combo p k m t) \<longleftrightarrow> (q, e) \<in> set t"
  by (induction t) (auto simp: set_combo_def split: if_splits)

lemma upsert_mem:
  "q \<noteq> p \<Longrightarrow> (q, e) \<in> set (table (upsert g p k m)) \<longleftrightarrow> (q, e) \<in> set (table g)"
  by (auto simp: upsert_def change_entry_table set_combo_mem AccelMap_add_entry_def
      write_table_def split: option.splits if_splits)

lemma upsert_unlocked:
  "q \<noteq> p \<Longrightarrow> unlocked (table (upsert g p k m)) q = unlocked (table g) q"
  by (simp add: unlocked_def upsert_lookup)

lemma delete_clashing_unlocked:
  "unlocked (table (delete_clashing_accelmap_entries g k m keep)) q = unlocked (table g) q"
  by (auto simp: unlocked_def delete_clashing_lookup clear_combo_def split: option.splits)

lemma delete_clashing_table:
  "table (delete_clashing_accelmap_entries g k m keep) =
     map (\<lambda>(q, e). if q \<noteq> keep \<and> (q, k, m) \<in> set (get_accel_map_entries g)
                        \<and> unlocked (table g) q
                     then (q, clear_combo e) else (q, e)) (table g)"
  unfolding delete_clashing_accelmap_entries_def by (rule delete_clashing_loop_table)

lemma delete_clashing_again:
  "table (delete_clashing_accelmap_entries
            (upsert (delete_clashing_accelmap_entries g k m p) p k m) k m p) =
   table (upsert (delete_clashing_accelmap_entries g k m p) p k m)"
proof -
  let ?g1 = "delete_clashing_accelmap_entries g k m p"
  let ?g2 = "upsert ?g1 p k m"
  let ?c = "\<lambda>q. q \<noteq> p \<and> (q, k, m) \<in> set (get_accel_map_entries g) \<and> unlocked (table g) q"
  have t1: "table ?g1 = map (\<lambda>(q, e). if ?c q then (q, clear_combo e) else (q, e)) (table g)"
    by (rule delete_clashing_table)
  have same: "clear_combo e = e"
    if q: "q \<noteq> p" and e: "(q, e) \<in> set (table ?g2)"
      and c2: "(q, k, m) \<in> set (get_accel_map_entries ?g2)" and u: "unlocked (table ?g2) q"
    for q e
  proof -
    have e1: "(q, e) \<in> set (table ?g1)" using e q by (simp add: upsert_mem)
    obtain e' where e': "(q, e') \<in> set (table ?g1)" "accel_key e' = k" "accel_mods e' = m"
      using c2 q by (auto simp: entries_mem upsert_mem)
    have u0: "unlocked (table g) q"
      using u q by (simp add: upsert_unlocked delete_clashing_unlocked)
    have "?c q"
    proof (rule ccontr)
      assume n: "\<not> ?c q"
      then have "(q, e') \<in> set (table g)" using e'(1) unfolding t1 by (auto split: if_splits)
      then have "(q, k, m) \<in> set (get_accel_map_entries g)"
        using e'(2,3) by (auto simp: entries_mem)
      then show False using n q u0 by simp
    qed
    then obtain e0 where "e = clear_combo e0" using e1 unfolding t1 by (auto split: if_splits)
    then show ?thesis by (simp add: clear_combo_def)
  qed
  have "map (\<lambda>(q, e). if q \<noteq> p \<and> (q, k, m) \<in> set (get_accel_map_entries ?g2)
                        \<and> unlocked (table ?g2) q
                     then (q, clear_combo e) else (q, e)) (table ?g2) = table ?g2"
    by (rule map_idI) (auto simp: same)
  then show ?thesis by (simp only: delete_clashing_table [of ?g2])
qed

lemma upsert_table_cong:
  "table g = table g' \<Longrightarrow> table (upsert g p k m) = table (upsert g' p k m)"
  by (simp add: upsert_def change_entry_table AccelMap_add_entry_def write_table_def
      split: option.splits)

lemma set_combo_absent: "map_of t p = None \<Longrightarrow> set_combo p k m t = t"
  by (induction t) (auto simp: set_combo_def split: if_splits)

lemma set_combo_twice: "set_combo p k m (set_combo p k m t) = set_combo p k m t"
  by (induction t) (auto simp: set_combo_def)

lemma upsert_again: "table (upsert (upsert g p k m) p k m) = table (upsert g p k m)"
proof (cases "map_of (table g) p")
  case None
  have "set_combo p k m (table g @ [(p, \<lparr>accel_key = k, accel_mods = m, locked = False\<rparr>)]) =
        set_combo p k m (table g) @ [(p, \<lparr>accel_key = k, accel_mods = m, locked = False\<rparr>)]"
    by (simp add: set_combo_def)
  then show ?thesis
    using None
    by (simp add: upsert_def AccelMap_add_entry_def write_table_def change_entry_table
        unlocked_def map_add_def set_combo_absent)
next
  case (Some e)
  then show ?thesis
    by (simp add: upsert_def change_entry_table unlocked_def map_of_set_combo set_combo_twice)
qed

lemma upsert_history:
  "history (upsert g p k m) = history g \<and> table (upsert g p k m) = table g
   \<or> history (upsert g p k m) = history g @ [table g]"
  by (auto simp: upsert_def change_entry_history change_entry_table AccelMap_add_entry_def
      write_table_def split: option.splits)

lemma delete_clashing_inv:
  assumes "\<And>t p. I t \<Longrightarrow> p \<noteq> keep \<Longrightarrow> (p, k, m) \<in> set (get_accel_map_entries g)
              \<Longrightarrow> I (set_combo p 0 0 t)"
    and "\<And>t. I t \<Longrightarrow> J t" and "I (table g)" and "\<forall>s\<in>set (history g). J s"
  shows "I (table (delete_clashing_accelmap_entries g k m keep)) \<and>
         (\<forall>s\<in>set (history (delete_clashing_accelmap_entries g k m keep)). J s)"
  unfolding delete_clashing_accelmap_entries_def
  using assms by (rule delete_clashing_loop_inv)

lemma unique_combos_set_combo_0: "unique_combos t \<Longrightarrow> unique_combos (set_combo p 0 0 t)"
  unfolding unique_combos_def set_combo_def
  by (fastforce split: if_splits)

lemma no_clash_after_delete:
  assumes u: "\<forall>(q, e)\<in>set (table g). q \<noteq> P \<and> accel_key e = k \<and> accel_mods e = m
                \<longrightarrow> unlocked (table g) q"
    and qe: "(q, e) \<in> set (table (delete_clashing_accelmap_entries g k m P))"
    and ne: "q \<noteq> P" and c: "accel_key e = k" "accel_mods e = m"
  shows "(k, m) = (0, 0)"
proof -
  let ?c = "\<lambda>q. q \<noteq> P \<and> (q, k, m) \<in> set (get_accel_map_entries g) \<and> unlocked (table g) q"
  obtain e0 where e0: "(q, e0) \<in> set (table g)" "e = (if ?c q then clear_combo e0 else e0)"
    using qe unfolding delete_clashing_table by (auto split: if_splits)
  show ?thesis
  proof (cases "?c q")
    case True
    then show ?thesis using e0(2) c by (simp add: clear_combo_def)
  next
    case False
    have "e = e0" using e0(2) by (simp only: if_not_P [OF False])
    then have "(q, k, m) \<in> set (get_accel_map_entries g)"
      using e0(1) c by (auto simp: entries_mem)
    moreover have "unlocked (table g) q" using u e0(1) \<open>e = e0\<close> ne c by auto
    ultimately show ?thesis using False ne by simp
  qed
qed

lemma unique_combosI:
  assumes "\<And>p e q e'. (p, e) \<in> set t \<Longrightarrow> (q, e') \<in> set t \<Longrightarrow> p \<noteq> q
      \<Longrightarrow> accel_key e = accel_key e' \<Longrightarrow> accel_mods e = accel_mods e'
      \<Longrightarrow> accel_key e = 0 \<and> accel_mods e = 0"
  shows "unique_combos t"
  unfolding unique_combos_def using assms by (simp add: case_prod_unfold) (metis prod.collapse)

lemma unique_combosD:
  assumes "unique_combos t" "(p, e) \<in> set t" "(q, e') \<in> set t" "p \<noteq> q"
    "accel_key e = accel_key e'" "accel_mods e = accel_mods e'"
  shows "accel_key e = 0 \<and> accel_mods e = 0"
  using assms unfolding unique_combos_def by fastforce

lemma set_combo_mem_iff:
  "(q, e) \<in> set (set_combo p k m t) \<longleftrightarrow>
     (\<exists>e0. (q, e0) \<in> set t \<and> e = (if q = p then e0\<lparr>accel_key := k, accel_mods := m\<rparr> else e0))"
  by (induction t) (auto simp: set_combo_def split: if_splits)

lemma unique_combos_upsert:
  assumes uc: "unique_combos (table g)"
    and nc: "\<And>q e. (q, e) \<in> set (table g) \<Longrightarrow> q \<noteq> P \<Longrightarrow> accel_key e = k
                \<Longrightarrow> accel_mods e = m \<Longrightarrow> k = 0 \<and> m = 0"
  shows "unique_combos (table (upsert g P k m))"
proof (cases "map_of (table g) P")
  case None
  let ?new = "\<lparr>accel_key = k, accel_mods = m, locked = False\<rparr>"
  have t: "table (upsert g P k m) = table g @ [(P, ?new)]"
    using None by (simp add: upsert_def AccelMap_add_entry_def write_table_def)
  show ?thesis
  proof (rule unique_combosI)
    fix p e q e'
    assume pe: "(p, e) \<in> set (table (upsert g P k m))"
      and qe: "(q, e') \<in> set (table (upsert g P k m))" and ne: "p \<noteq> q"
      and ke: "accel_key e = accel_key e'" and me: "accel_mods e = accel_mods e'"
    have p: "(p, e) \<in> set (table g) \<or> (p = P \<and> e = ?new)" using pe t by auto
    have q: "(q, e') \<in> set (table g) \<or> (q = P \<and> e' = ?new)" using qe t by auto
    consider "(p, e) \<in> set (table g)" "(q, e') \<in> set (table g)"
      | "p = P" "e = ?new" "(q, e') \<in> set (table g)"
      | "q = P" "e' = ?new" "(p, e) \<in> set (table g)"
      using p q ne by auto
    then show "accel_key e = 0 \<and> accel_mods e = 0"
    proof cases
      case 1
      then show ?thesis using unique_combosD [OF uc _ _ ne ke me] by simp
    next
      case 2
      then have "k = 0 \<and> m = 0" using nc [of q e'] ne ke me by auto
      then show ?thesis using 2 by simp
    next
      case 3
      then have "k = 0 \<and> m = 0" using nc [of p e] ne ke me by auto
      then show ?thesis using 3 ke me by simp
    qed
  qed
next
  case (Some e0)
  show ?thesis
  proof (cases "locked e0")
    case True
    then have "table (upsert g P k m) = table g"
      using Some by (simp add: upsert_def change_entry_table unlocked_def)
    then show ?thesis using uc by simp
  next
    case False
    then have t: "table (upsert g P k m) = set_combo P k m (table g)"
      using Some by (simp add: upsert_def change_entry_table unlocked_def)
    show ?thesis
    proof (rule unique_combosI)
      fix p e q e'
      assume pe: "(p, e) \<in> set (table (upsert g P k m))"
        and qe: "(q, e') \<in> set (table (upsert g P k m))" and ne: "p \<noteq> q"
        and ke: "accel_key e = accel_key e'" and me: "accel_mods e = accel_mods e'"
      obtain a where a: "(p, a) \<in> set (table g)"
        "e = (if p = P then a\<lparr>accel_key := k, accel_mods := m\<rparr> else a)"
        using pe unfolding t set_combo_mem_iff by blast
      obtain b where b: "(q, b) \<in> set (table g)"
        "e' = (if q = P then b\<lparr>accel_key := k, accel_mods := m\<rparr> else b)"
        using qe unfolding t set_combo_mem_iff by blast
      consider "p \<noteq> P" "q \<noteq> P" | "p = P" "q \<noteq> P" | "q = P" "p \<noteq> P"
        using ne by auto
      then show "accel_key e = 0 \<and> accel_mods e = 0"
      proof cases
        case 1
        then have "e = a" "e' = b" using a b by simp_all
        then show ?thesis using unique_combosD [OF uc a(1) b(1) ne] ke me by simp
      next
        case 2
        then have "e' = b" "accel_key e = k" "accel_mods e = m" using a b by simp_all
        then have "k = 0 \<and> m = 0" using nc [of q b] b(1) 2 ke me by simp
        then show ?thesis using \<open>accel_key e = k\<close> \<open>accel_mods e = m\<close> by simp
      next
        case 3
        then have "e = a" "accel_key e' = k" "accel_mods e' = m" using a b by simp_all
        then have "k = 0 \<and> m = 0" using nc [of p a] a(1) 3 ke me by simp
        then show ?thesis using \<open>accel_key e' = k\<close> \<open>accel_mods e' = m\<close> ke me by simp
      qed
    qed
  qed
qed

lemmas commit_eval = set_accelmap_entry_def delete_clashing_accelmap_entries_def
  get_accel_map_entries_def AccelMap_lookup_entry_def AccelMap_add_entry_def
  AccelMap_change_entry_def write_table_def set_combo_def Let_def

subsection \<open>Committing twice\<close>

text \<open>
  C3. Idempotence: committing the same path and combination a second time, right
  after the first commit, returns without error and leaves the table of the registry
  as the first commit left it. This holds for every table, path and combination.
\<close>

theorem commit_idempotent:
  "\<exists>g1 g2. set_accelmap_entry g path keyval mods = Inr g1
     \<and> set_accelmap_entry g1 path keyval mods = Inr g2 \<and> table g2 = table g1"
proof -
  let ?g1 = "upsert (delete_clashing_accelmap_entries g keyval mods path) path keyval mods"
  let ?g2 = "upsert (delete_clashing_accelmap_entries ?g1 keyval mods path) path keyval mods"
  have "table ?g2 = table (upsert ?g1 path keyval mods)"
    by (rule upsert_table_cong) (rule delete_clashing_again)
  also have "\<dots> = table ?g1" by (rule upsert_again)
  finally show ?thesis by (simp add: set_accelmap_entry_eq)
qed

subsection \<open>A commit that clashes\<close>

text \<open>
  C1. When another path Q is bound to the combination that is committed to the path
  P, the commit returns without error, and afterwards Q is no longer bound to the
  combination and P is. This needs the registry to accept the changes: the entry of Q
  is not locked, and P has no entry or one that is not locked. A combination is a pair
  other than (0, 0), the pair that the source writes to delete a binding.
\<close>

theorem commit_replaces_clash:
  assumes Q: "bound_to (table g) Q keyval mods" and ne: "Q \<noteq> P"
    and uQ: "unlocked (table g) Q"
    and uP: "map_of (table g) P = None \<or> unlocked (table g) P"
  shows "\<exists>g'. set_accelmap_entry g P keyval mods = Inr g'
           \<and> \<not> bound_to (table g') Q keyval mods \<and> bound_to (table g') P keyval mods"
proof -
  let ?g1 = "delete_clashing_accelmap_entries g keyval mods P"
  let ?g' = "upsert ?g1 P keyval mods"
  obtain e where e: "map_of (table g) Q = Some e" "accel_key e = keyval" "accel_mods e = mods"
    and nz: "(keyval, mods) \<noteq> (0, 0)"
    using Q by (auto simp: bound_to_def holds_def split: option.splits)
  have "(Q, e) \<in> set (table g)" using e(1) by (rule map_of_SomeD)
  then have "(Q, keyval, mods) \<in> set (get_accel_map_entries g)"
    using e(2,3) by (auto simp: entries_mem)
  then have "map_of (table ?g1) Q = Some (clear_combo e)"
    using ne uQ e(1) by (simp add: delete_clashing_lookup)
  then have "map_of (table ?g') Q = Some (clear_combo e)"
    using ne by (simp add: upsert_lookup)
  then have a: "\<not> bound_to (table ?g') Q keyval mods"
    using nz by (auto simp: bound_to_def holds_def clear_combo_def)
  have "map_of (table ?g1) P = None \<or> unlocked (table ?g1) P"
    using uP by (auto simp: delete_clashing_lookup delete_clashing_unlocked)
  then have "holds (table ?g') P keyval mods"
    by (auto simp: holds_def upsert_lookup unlocked_def split: option.splits)
  then have b: "bound_to (table ?g') P keyval mods"
    using nz by (simp add: bound_to_def)
  show ?thesis using a b by (simp add: set_accelmap_entry_eq)
qed

theorem commit_replaces_clash_witness:
  "bound_to (table reg_free) ''A'' 115 4 \<and> ''A'' \<noteq> ''B''
   \<and> unlocked (table reg_free) ''A''
   \<and> (map_of (table reg_free) ''B'' = None \<or> unlocked (table reg_free) ''B'')
   \<and> (\<exists>g'. set_accelmap_entry reg_free ''B'' 115 4 = Inr g'
           \<and> \<not> bound_to (table g') ''A'' 115 4 \<and> bound_to (table g') ''B'' 115 4)"
proof -
  have h: "bound_to (table reg_free) ''A'' 115 4" "''A'' \<noteq> ''B''"
    "unlocked (table reg_free) ''A''"
    "map_of (table reg_free) ''B'' = None \<or> unlocked (table reg_free) ''B''"
    by (simp_all add: reg_free_def bound_to_def holds_def unlocked_def)
  show ?thesis using h commit_replaces_clash [OF h] by simp
qed

text \<open>
  Without that condition the statement fails: when the registry refuses to clear the
  entry of A, the source logs a warning (line 372) and goes on to write the entry of
  B, and both paths are bound to Control+s.
\<close>

theorem commit_replaces_clash_counterexample:
  "bound_to (table reg_locked) ''A'' 115 4 \<and> ''A'' \<noteq> ''B''
   \<and> set_accelmap_entry reg_locked ''B'' 115 4 =
       Inr \<lparr>table = [(''A'', \<lparr>accel_key = 115, accel_mods = 4, locked = True\<rparr>),
                     (''B'', \<lparr>accel_key = 115, accel_mods = 4, locked = False\<rparr>)],
            history = [table reg_locked]\<rparr>
   \<and> bound_to [(''A'', \<lparr>accel_key = 115, accel_mods = 4, locked = True\<rparr>),
                 (''B'', \<lparr>accel_key = 115, accel_mods = 4, locked = False\<rparr>)] ''A'' 115 4"
  by (simp add: reg_locked_def commit_eval bound_to_def holds_def)

subsection \<open>One path for a combination\<close>

text \<open>
  C2. Take a table in which no two paths are bound to the same combination, and a
  commit in which the registry accepts the deletion of every clashing entry. The
  commit returns without error; when the deletion loop has ended no path other than
  the target is bound to the new combination, and only then is the target written;
  every table that the commit replaces, and the table it leaves, has at most one path
  for a combination. Entries that hold (0, 0) have no accelerator and are not counted.
\<close>

theorem commit_keeps_combos_unique:
  assumes uc: "unique_combos (table g)"
    and u: "deletions_accepted (table g) P keyval mods"
  shows "\<exists>g'. set_accelmap_entry g P keyval mods = Inr g'
           \<and> (\<forall>q. q \<noteq> P \<longrightarrow>
                 \<not> bound_to (table (delete_clashing_accelmap_entries g keyval mods P)) q keyval mods)
           \<and> (\<forall>s\<in>set (history g'). s \<in> set (history g) \<or> unique_combos s)
           \<and> unique_combos (table g')"
proof -
  let ?g1 = "delete_clashing_accelmap_entries g keyval mods P"
  let ?g' = "upsert ?g1 P keyval mods"
  let ?J = "\<lambda>s. s \<in> set (history g) \<or> unique_combos s"
  have d: "unique_combos (table ?g1) \<and> (\<forall>s\<in>set (history ?g1). ?J s)"
    by (rule delete_clashing_inv [where I = unique_combos and J = ?J])
      (auto simp: unique_combos_set_combo_0 uc)
  have nc: "keyval = 0 \<and> mods = 0"
    if "(q, e) \<in> set (table ?g1)" "q \<noteq> P" "accel_key e = keyval" "accel_mods e = mods" for q e
    using no_clash_after_delete [OF u [unfolded deletions_accepted_def] that] by simp
  have a: "\<forall>q. q \<noteq> P \<longrightarrow> \<not> bound_to (table ?g1) q keyval mods"
  proof (intro allI impI notI)
    fix q assume q: "q \<noteq> P" and b: "bound_to (table ?g1) q keyval mods"
    then obtain e where "map_of (table ?g1) q = Some e" "accel_key e = keyval"
      "accel_mods e = mods" and nz: "(keyval, mods) \<noteq> (0, 0)"
      by (auto simp: bound_to_def holds_def split: option.splits)
    then have "(q, e) \<in> set (table ?g1)" by (simp add: map_of_SomeD)
    then show False
      using nc [of q e] q \<open>accel_key e = keyval\<close> \<open>accel_mods e = mods\<close> nz by simp
  qed
  have b: "\<forall>s\<in>set (history ?g'). ?J s"
    using d upsert_history [of ?g1 P keyval mods] by auto
  have c: "unique_combos (table ?g')"
    using d nc by (intro unique_combos_upsert) simp_all
  show ?thesis using a b c by (simp add: set_accelmap_entry_eq)
qed

theorem commit_keeps_combos_unique_witness:
  "unique_combos (table reg_free)
   \<and> deletions_accepted (table reg_free) ''C'' 115 4
   \<and> (\<exists>g'. set_accelmap_entry reg_free ''C'' 115 4 = Inr g'
           \<and> (\<forall>q. q \<noteq> ''C'' \<longrightarrow>
                 \<not> bound_to (table (delete_clashing_accelmap_entries reg_free 115 4 ''C'')) q 115 4)
           \<and> (\<forall>s\<in>set (history g'). s \<in> set (history reg_free) \<or> unique_combos s)
           \<and> unique_combos (table g'))"
proof -
  have h1: "unique_combos (table reg_free)"
    by (simp add: reg_free_def unique_combos_def)
  have h2: "deletions_accepted (table reg_free) ''C'' 115 4"
    by (simp add: reg_free_def deletions_accepted_def unlocked_def)
  show ?thesis using h1 h2 commit_keeps_combos_unique [OF h1 h2] by simp
qed

text \<open>
  When the registry refuses the deletion of a clashing entry the commit still writes
  the target, and two paths hold Control+s.
\<close>

theorem commit_keeps_combos_unique_counterexample:
  "unique_combos (table reg_locked)
   \<and> set_accelmap_entry reg_locked ''C'' 115 4 =
       Inr \<lparr>table = [(''A'', \<lparr>accel_key = 115, accel_mods = 4, locked = True\<rparr>),
                     (''B'', \<lparr>accel_key = 0, accel_mods = 0, locked = False\<rparr>),
                     (''C'', \<lparr>accel_key = 115, accel_mods = 4, locked = False\<rparr>)],
            history = [table reg_locked]\<rparr>
   \<and> \<not> unique_combos [(''A'', \<lparr>accel_key = 115, accel_mods = 4, locked = True\<rparr>),
                     (''B'', \<lparr>accel_key = 0, accel_mods = 0, locked = False\<rparr>),
                     (''C'', \<lparr>accel_key = 115, accel_mods = 4, locked = False\<rparr>)]"
  by (simp add: reg_locked_def commit_eval unique_combos_def)

subsection \<open>What a commit leaves alone\<close>

text \<open>
  C9. In a registry with one entry for a path, a commit to the path P leaves the
  entry of every other path that does not hold the new combination as it was, and a
  path without an entry without one: in the table the commit leaves and in every
  table it replaces on the way. So only the target and the clashing entries are
  written.
\<close>

theorem commit_frame:
  assumes wf: "wellformed (table g)" and ne: "q \<noteq> P"
    and nc: "\<not> holds (table g) q keyval mods"
  shows "\<exists>g'. set_accelmap_entry g P keyval mods = Inr g'
           \<and> map_of (table g') q = map_of (table g) q
           \<and> (\<forall>s\<in>set (history g'). s \<in> set (history g) \<or> map_of s q = map_of (table g) q)"
proof -
  let ?g1 = "delete_clashing_accelmap_entries g keyval mods P"
  let ?g' = "upsert ?g1 P keyval mods"
  let ?I = "\<lambda>t. map_of t q = map_of (table g) q"
  let ?J = "\<lambda>s. s \<in> set (history g) \<or> ?I s"
  have nq: "(q, keyval, mods) \<notin> set (get_accel_map_entries g)"
  proof
    assume "(q, keyval, mods) \<in> set (get_accel_map_entries g)"
    then obtain e where "(q, e) \<in> set (table g)" "accel_key e = keyval" "accel_mods e = mods"
      by (auto simp: entries_mem)
    then have "holds (table g) q keyval mods"
      using wf by (simp add: holds_def wellformed_def)
    then show False using nc by simp
  qed
  have step: "\<And>t p. ?I t \<Longrightarrow> p \<noteq> P \<Longrightarrow> (p, keyval, mods) \<in> set (get_accel_map_entries g)
      \<Longrightarrow> ?I (set_combo p 0 0 t)"
    using nq by (auto simp: map_of_set_combo)
  have d: "?I (table ?g1) \<and> (\<forall>s\<in>set (history ?g1). ?J s)"
    by (rule delete_clashing_inv [where I = ?I and J = ?J, OF step]) auto
  have a: "?I (table ?g')" using d ne by (simp add: upsert_lookup)
  have b: "\<forall>s\<in>set (history ?g'). ?J s"
    using d upsert_history [of ?g1 P keyval mods] by auto
  show ?thesis using a b by (simp add: set_accelmap_entry_eq)
qed

theorem commit_frame_witness:
  "wellformed (table reg_free) \<and> ''B'' \<noteq> ''C'' \<and> \<not> holds (table reg_free) ''B'' 115 4
   \<and> (\<exists>g'. set_accelmap_entry reg_free ''C'' 115 4 = Inr g'
           \<and> map_of (table g') ''B'' = map_of (table reg_free) ''B''
           \<and> (\<forall>s\<in>set (history g').
                 s \<in> set (history reg_free) \<or> map_of s ''B'' = map_of (table reg_free) ''B''))"
proof -
  have h: "wellformed (table reg_free)" "''B'' \<noteq> ''C''" "\<not> holds (table reg_free) ''B'' 115 4"
    by (simp_all add: reg_free_def wellformed_def holds_def)
  show ?thesis using h commit_frame [OF h] by simp
qed

section \<open>Properties of the list of actions\<close>

lemma accel_labels_loop_table:
  "accel_labels_loop tk (map (\<lambda>(p, e). (p, accel_key e, accel_mods e)) t) acc path =
     (case map_of (rev t) path of
        Some e \<Rightarrow> Some (accelerator_get_label tk (accel_key e) (accel_mods e))
      | None \<Rightarrow> acc path)"
  by (induction t arbitrary: acc) (auto simp: map_add_def split: option.splits)

lemma accel_labels_loop_eq:
  "accel_labels_loop tk (get_accel_map_entries g) Map.empty = accel_label_of tk g"
  by (rule ext)
    (simp add: get_accel_map_entries_def accel_labels_loop_table accel_label_of_def
      split: option.splits)

lemma actions_loop_store:
  "store (actions_loop gn as al ed) =
     store ed @ map (\<lambda>a. [Some (action_path gn (action_get_name a)),
                           al (action_path gn (action_get_name a)), action_get_label a])
                (filter labelled as)"
  by (induction as arbitrary: ed)
    (auto simp: labelled_def COLUMN_TYPES_def PATH_COLUMN_def ACCEL_LABEL_COLUMN_def
      ACTION_LABEL_COLUMN_def Let_def numeral_2_eq_2 split: option.splits)

lemma groups_loop_store:
  "store (groups_loop gs al ed) =
     store ed @ map (\<lambda>ga. [Some (action_path (fst ga) (action_get_name (snd ga))),
                            al (action_path (fst ga) (action_get_name (snd ga))),
                            action_get_label (snd ga)])
                (filter (\<lambda>ga. labelled (snd ga)) (all_actions gs))"
proof (induction gs arbitrary: ed)
  case Nil
  then show ?case by (simp add: all_actions_def)
next
  case (Cons g gs)
  have "all_actions (g # gs) =
      map (\<lambda>a. (group_get_name g, a)) (group_list_actions g) @ all_actions gs"
    by (simp add: all_actions_def)
  then show ?case
    by (simp add: Cons.IH actions_loop_store filter_map comp_def)
qed

text \<open>
  C4. When a manager is at hand (the editor's own, or else the application's), the
  rebuild returns without error and the rows of the store are exactly the rows of the
  actions whose label is not empty, one for each and in their order: the path, the
  label of the path's entry in the registry or nothing, and the label of the action.
  An action whose label is missing or empty gets no row. This holds for every
  registry and every list of groups.
\<close>

theorem rebuild_rows:
  assumes "(if ui_manager ed = None then app_ui_manager else ui_manager ed) = Some groups"
  shows "\<exists>ed'. init_from_accel_map tk app_ui_manager g ed = Inr ed'
           \<and> store ed' = rows_of tk g groups"
  using assms
  by (auto simp: init_from_accel_map_def Let_def groups_loop_store accel_labels_loop_eq
      rows_of_def row_of_def split: if_splits)

theorem rebuild_rows_witness:
  "(if ui_manager editor_new = None then Some actions_example else ui_manager editor_new)
     = Some actions_example
   \<and> (\<exists>ed'. init_from_accel_map tk_us (Some actions_example) reg_free editor_new = Inr ed'
           \<and> store ed' = rows_of tk_us reg_free actions_example)
   \<and> rows_of tk_us reg_free actions_example =
        [[Some ''<Actions>/WindowActions/Save'', None, Some ''Save'']]"
proof -
  have h: "(if ui_manager editor_new = None then Some actions_example else ui_manager editor_new)
     = Some actions_example"
    by (simp add: editor_new_def)
  have r: "rows_of tk_us reg_free actions_example =
        [[Some ''<Actions>/WindowActions/Save'', None, Some ''Save'']]"
    by (simp add: rows_of_def row_of_def all_actions_def actions_example_def labelled_def
        action_path_def accel_label_of_def reg_free_def)
  show ?thesis
    using h r rebuild_rows [OF h, where tk = tk_us and g = reg_free] by simp
qed

section \<open>Properties of the capture dialog\<close>

subsection \<open>Modifier keys\<close>

text \<open>
  C8. A press of a modifier key is not handled and changes nothing: the handler
  returns False and the registry, the dialog with its pending key value and modifiers,
  and the editing widget are as they were. No response is issued, so the capture goes
  on.
\<close>

theorem modifier_press_ignored:
  "event_is_modifier event \<Longrightarrow> edit_dialog_key_press_cb tk labels w event = Inr (False, w)"
  by (simp add: edit_dialog_key_press_cb_def)

theorem modifier_press_ignored_witness:
  "event_is_modifier (press 65505 50 0 True)
   \<and> edit_dialog_key_press_cb tk_us Map.empty ui_start (press 65505 50 0 True)
       = Inr (False, ui_start)"
proof -
  have h: "event_is_modifier (press 65505 50 0 True)" by (simp add: press_def)
  show ?thesis using h modifier_press_ignored [OF h] by simp
qed

subsection \<open>Combinations that the toolkit rejects\<close>

text \<open>
  C6. A key press that the handler resolves to a combination (a press that is not a
  modifier key and not Return, Escape or BackSpace) and whose combination the
  toolkit's validity rule rejects is marked handled and changes nothing: the
  registry, the pending result, the labels of the dialog and the editing widget are as
  they were, and no response is issued.
\<close>

theorem invalid_combo_absorbed:
  assumes "event_type event = KEY_PRESS" and "\<not> event_is_modifier event"
    and "event_keyval event \<notin> {KEY_Return, KEY_Escape, KEY_BackSpace}"
    and "\<not> accelerator_valid tk (fst (resolve_accel tk event)) (snd (resolve_accel tk event))"
  shows "edit_dialog_key_press_cb tk labels w event = Inr (True, w)"
  using assms by (simp add: edit_dialog_key_press_cb_def case_prod_unfold Let_def)

theorem invalid_combo_absorbed_witness:
  "event_type (press 0 99 0 False) = KEY_PRESS \<and> \<not> event_is_modifier (press 0 99 0 False)
   \<and> event_keyval (press 0 99 0 False) \<notin> {KEY_Return, KEY_Escape, KEY_BackSpace}
   \<and> \<not> accelerator_valid tk_us (fst (resolve_accel tk_us (press 0 99 0 False)))
         (snd (resolve_accel tk_us (press 0 99 0 False)))
   \<and> edit_dialog_key_press_cb tk_us Map.empty ui_start (press 0 99 0 False) = Inr (True, ui_start)"
proof -
  have h: "event_type (press 0 99 0 False) = KEY_PRESS" "\<not> event_is_modifier (press 0 99 0 False)"
    "event_keyval (press 0 99 0 False) \<notin> {KEY_Return, KEY_Escape, KEY_BackSpace}"
    "\<not> accelerator_valid tk_us (fst (resolve_accel tk_us (press 0 99 0 False)))
         (snd (resolve_accel tk_us (press 0 99 0 False)))"
    by (simp_all add: press_def KEY_Return_def KEY_Escape_def KEY_BackSpace_def
        resolve_accel_def tk_us_def us_layout_def)
  show ?thesis using h invalid_combo_absorbed [OF h] by simp
qed

subsection \<open>Delete on a path without an entry\<close>

text \<open>
  C7. The response Delete for a path that has no entry in the registry returns
  without error, leaves the registry as it was, with no write at all, marks the
  editing widget done and removed, and destroys the dialog.
\<close>

theorem reject_without_entry:
  assumes "\<not> fst (AccelMap_lookup_entry (accel_map w) path)"
  shows "edit_dialog_response_cb w REJECT path =
           Inr (w\<lparr>editable := (editable w)\<lparr>editing_done := True, widget_removed := True\<rparr>,
                  dialog := (dialog w)\<lparr>destroyed := True\<rparr>\<rparr>)"
  using assms by (simp add: edit_dialog_response_cb_def Let_def)

theorem reject_without_entry_witness:
  "\<not> fst (AccelMap_lookup_entry (accel_map ui_start) ''D'')
   \<and> edit_dialog_response_cb ui_start REJECT ''D'' =
       Inr (ui_start\<lparr>editable := (editable ui_start)\<lparr>editing_done := True, widget_removed := True\<rparr>,
                     dialog := (dialog ui_start)\<lparr>destroyed := True\<rparr>\<rparr>)"
proof -
  have h: "\<not> fst (AccelMap_lookup_entry (accel_map ui_start) ''D'')"
    by (simp add: AccelMap_lookup_entry_def ui_start_def accel_editing_started_cb_def reg_free_def)
  show ?thesis using h reject_without_entry [OF h] by simp
qed

subsection \<open>The modifiers that are recorded\<close>

text \<open>
  What the handler computes for a press that it resolves: the lowercased key value of
  the layout's translation, and the modifiers of the event within the default mask,
  without the consumed ones, with Shift added when the lowercased key value differs
  from the key value of the event (line 302). A valid combination becomes the pending
  result.
\<close>

lemma resolve_accel_translated:
  assumes "translate_keyboard_state tk (event_hardware_keycode event) (event_state event)
             (event_group event) = (b, kv, eg, lv, consumed)"
  shows "resolve_accel tk event =
           (keyval_to_lower tk kv,
            (event_state event AND accelerator_get_default_mod_mask tk AND NOT consumed)
              OR (if keyval_to_lower tk kv \<noteq> event_keyval event then SHIFT_MASK else 0))"
  using assms by (simp add: resolve_accel_def)

lemma valid_combo_recorded:
  assumes "event_type event = KEY_PRESS" and "\<not> event_is_modifier event"
    and "event_keyval event \<notin> {KEY_Return, KEY_Escape, KEY_BackSpace}"
    and "accelerator_valid tk (fst (resolve_accel tk event)) (snd (resolve_accel tk event))"
  shows "\<exists>w'. edit_dialog_key_press_cb tk labels w event = Inr (True, w')
           \<and> result_keyval (dialog w') = Some (fst (resolve_accel tk event))
           \<and> result_mods (dialog w') = Some (snd (resolve_accel tk event))
           \<and> accel_map w' = accel_map w"
  using assms by (simp add: edit_dialog_key_press_cb_def case_prod_unfold Let_def)

lemma resolve_accel_consistent:
  assumes "translate_keyboard_state tk (event_hardware_keycode event) (event_state event)
             (event_group event) = (b, kv, eg, lv, consumed)"
    and "event_keyval event = kv"
  shows "resolve_accel tk event =
           (keyval_to_lower tk kv,
            (event_state event AND accelerator_get_default_mod_mask tk AND NOT consumed)
              OR (if keyval_to_lower tk kv \<noteq> kv then SHIFT_MASK else 0))"
  using assms by (simp add: resolve_accel_def)

text \<open>
  C5. For a key press that the toolkit delivers, that is not a modifier key and not
  one of the three dialog keys, the handler resolves the lowercased key of the layout
  and the modifiers of the event within the default mask, without the consumed ones
  and with Shift added back exactly when lowercasing changes the key that the layout
  resolved; when the toolkit accepts the combination, these are the pending key and
  modifiers. On the small layout, Shift with j records j with Shift, and Shift with
  the key of = records + without Shift.
\<close>

theorem recorded_modifiers:
  assumes "event_type event = KEY_PRESS" and "\<not> event_is_modifier event"
    and "event_keyval event \<notin> dialog_keys"
    and tr: "translate_keyboard_state tk (event_hardware_keycode event) (event_state event)
               (event_group event) = (b, kv, eg, lv, consumed)"
    and d: "delivered tk event"
  shows "let mods = (event_state event AND accelerator_get_default_mod_mask tk AND NOT consumed)
                      OR (if keyval_to_lower tk kv \<noteq> kv then SHIFT_MASK else 0)
         in resolve_accel tk event = (keyval_to_lower tk kv, mods)
            \<and> (accelerator_valid tk (keyval_to_lower tk kv) mods \<longrightarrow>
                 (\<exists>w'. edit_dialog_key_press_cb tk labels w event = Inr (True, w')
                    \<and> result_keyval (dialog w') = Some (keyval_to_lower tk kv)
                    \<and> result_mods (dialog w') = Some mods))"
proof -
  have k: "event_keyval event = kv" using d tr by (simp add: delivered_def)
  have r: "resolve_accel tk event =
      (keyval_to_lower tk kv,
       (event_state event AND accelerator_get_default_mod_mask tk AND NOT consumed)
         OR (if keyval_to_lower tk kv \<noteq> kv then SHIFT_MASK else 0))"
    using tr k by (rule resolve_accel_consistent)
  show ?thesis
    unfolding Let_def
    using r valid_combo_recorded [where tk = tk and event = event and labels = labels and w = w]
      assms(1-3)
    by (auto simp: dialog_keys_def)
qed

theorem recorded_modifiers_witness:
  "event_type (press 74 44 1 False) = KEY_PRESS \<and> \<not> event_is_modifier (press 74 44 1 False)
   \<and> event_keyval (press 74 44 1 False) \<notin> dialog_keys
   \<and> translate_keyboard_state tk_us (event_hardware_keycode (press 74 44 1 False))
        (event_state (press 74 44 1 False)) (event_group (press 74 44 1 False))
        = (True, 74, 0, 0, 1)
   \<and> delivered tk_us (press 74 44 1 False)
   \<and> resolve_accel tk_us (press 74 44 1 False) = (106, SHIFT_MASK)
   \<and> (\<exists>w'. edit_dialog_key_press_cb tk_us Map.empty ui_start (press 74 44 1 False) = Inr (True, w')
          \<and> result_keyval (dialog w') = Some 106 \<and> result_mods (dialog w') = Some SHIFT_MASK)
   \<and> event_keyval (press 43 21 1 False) \<notin> dialog_keys
   \<and> translate_keyboard_state tk_us (event_hardware_keycode (press 43 21 1 False))
        (event_state (press 43 21 1 False)) (event_group (press 43 21 1 False))
        = (True, 43, 0, 0, 1)
   \<and> delivered tk_us (press 43 21 1 False)
   \<and> resolve_accel tk_us (press 43 21 1 False) = (43, 0)
   \<and> (\<exists>w'. edit_dialog_key_press_cb tk_us Map.empty ui_start (press 43 21 1 False) = Inr (True, w')
          \<and> result_keyval (dialog w') = Some 43 \<and> result_mods (dialog w') = Some 0)"
proof -
  have j: "event_type (press 74 44 1 False) = KEY_PRESS" "\<not> event_is_modifier (press 74 44 1 False)"
    "event_keyval (press 74 44 1 False) \<notin> dialog_keys"
    "translate_keyboard_state tk_us (event_hardware_keycode (press 74 44 1 False))
        (event_state (press 74 44 1 False)) (event_group (press 74 44 1 False))
        = (True, 74, 0, 0, 1)"
    "delivered tk_us (press 74 44 1 False)"
    by (simp_all add: press_def dialog_keys_def KEY_Return_def KEY_Escape_def KEY_BackSpace_def
        tk_us_def us_layout_def delivered_def)
  have p: "event_type (press 43 21 1 False) = KEY_PRESS" "\<not> event_is_modifier (press 43 21 1 False)"
    "event_keyval (press 43 21 1 False) \<notin> dialog_keys"
    "translate_keyboard_state tk_us (event_hardware_keycode (press 43 21 1 False))
        (event_state (press 43 21 1 False)) (event_group (press 43 21 1 False))
        = (True, 43, 0, 0, 1)"
    "delivered tk_us (press 43 21 1 False)"
    by (simp_all add: press_def dialog_keys_def KEY_Return_def KEY_Escape_def KEY_BackSpace_def
        tk_us_def us_layout_def delivered_def)
  have modj: "(event_state (press 74 44 1 False) AND accelerator_get_default_mod_mask tk_us AND NOT 1)
              OR (if (106::nat) \<noteq> 74 then SHIFT_MASK else 0) = SHIFT_MASK"
    and kj: "keyval_to_lower tk_us 74 = 106" and vj: "accelerator_valid tk_us 106 SHIFT_MASK"
    by (simp_all add: tk_us_def press_def SHIFT_MASK_def)
  have modp: "(event_state (press 43 21 1 False) AND accelerator_get_default_mod_mask tk_us AND NOT 1)
              OR (if (43::nat) \<noteq> 43 then SHIFT_MASK else 0) = 0"
    and kp: "keyval_to_lower tk_us 43 = 43" and vp: "accelerator_valid tk_us 43 0"
    by (simp_all add: tk_us_def press_def SHIFT_MASK_def)
  note rj = recorded_modifiers [OF j, where labels = Map.empty and w = ui_start,
      unfolded Let_def kj modj]
  note rp = recorded_modifiers [OF p, where labels = Map.empty and w = ui_start,
      unfolded Let_def kp modp]
  have j1: "resolve_accel tk_us (press 74 44 1 False) = (106, SHIFT_MASK)"
    using rj by (rule conjunct1)
  have j2: "\<exists>w'. edit_dialog_key_press_cb tk_us Map.empty ui_start (press 74 44 1 False) = Inr (True, w')
          \<and> result_keyval (dialog w') = Some 106 \<and> result_mods (dialog w') = Some SHIFT_MASK"
    using rj [THEN conjunct2, THEN mp, OF vj] .
  have p1: "resolve_accel tk_us (press 43 21 1 False) = (43, 0)"
    using rp by (rule conjunct1)
  have p2: "\<exists>w'. edit_dialog_key_press_cb tk_us Map.empty ui_start (press 43 21 1 False) = Inr (True, w')
          \<and> result_keyval (dialog w') = Some 43 \<and> result_mods (dialog w') = Some 0"
    using rp [THEN conjunct2, THEN mp, OF vp] .
  show ?thesis using j p j1 j2 p1 p2 by (intro conjI) blast+
qed

subsection \<open>Return, Escape and BackSpace\<close>

lemma response_cb_result:
  "(case edit_dialog_response_cb w r path of
      Inl err \<Rightarrow> err = TypeError \<and> r = OK \<and> result_keyval (dialog w) \<noteq> None
                   \<and> result_mods (dialog w) = None
    | Inr w' \<Rightarrow> dialog w' = (dialog w)\<lparr>destroyed := True\<rparr> \<and> widget_removed (editable w'))"
  by (cases r)
    (auto simp: edit_dialog_response_cb_def Let_def set_accelmap_entry_eq
      split: option.splits sum.splits)

lemma fst_resolve_accel:
  "fst (resolve_accel tk event) =
     keyval_to_lower tk (fst (snd (translate_keyboard_state tk (event_hardware_keycode event)
       (event_state event) (event_group event))))"
  by (simp add: resolve_accel_def case_prod_unfold Let_def)

lemma dialog_key_press:
  assumes "event_type event = KEY_PRESS" and "\<not> event_is_modifier event"
    and "(event_keyval event, r) \<in> {(KEY_Return, OK), (KEY_Escape, CANCEL), (KEY_BackSpace, REJECT)}"
  shows "edit_dialog_key_press_cb tk labels w event = handled (dialog_response w r)"
  using assms
  by (auto simp: edit_dialog_key_press_cb_def USE_NORMAL_DIALOG_KEYS_def KEY_Return_def
      KEY_Escape_def KEY_BackSpace_def)

lemma key_press_keeps_dialog_keys_out:
  assumes d: "delivered tk event" and l: "lower_apart tk (event_keyval event)"
    and p: "result_keyval (dialog w) \<notin> Some ` dialog_keys"
    and r: "edit_dialog_key_press_cb tk labels w event = Inr (h, w')"
  shows "result_keyval (dialog w') \<notin> Some ` dialog_keys"
proof (cases "event_type event = KEY_PRESS \<and> \<not> event_is_modifier event")
  case False
  then have "w' = w" using r by (auto simp: edit_dialog_key_press_cb_def split: if_splits)
  then show ?thesis using p by simp
next
  case press: True
  show ?thesis
  proof (cases "event_keyval event \<in> dialog_keys")
    case True
    then obtain rt where
      "(event_keyval event, rt) \<in> {(KEY_Return, OK), (KEY_Escape, CANCEL), (KEY_BackSpace, REJECT)}"
      by (auto simp: dialog_keys_def)
    then have "edit_dialog_key_press_cb tk labels w event = handled (dialog_response w rt)"
      using press by (intro dialog_key_press) simp_all
    then have "dialog_response w rt = Inr w'"
      using r by (auto simp: handled_def split: sum.splits)
    then have "dialog w' = (dialog w)\<lparr>destroyed := True\<rparr>"
      using response_cb_result [where w = w and r = rt and path = "dialog_accel_path (dialog w)"]
      by (simp add: dialog_response_def)
    then show ?thesis using p by simp
  next
    case False
    have k: "fst (resolve_accel tk event) = keyval_to_lower tk (event_keyval event)"
      using d by (simp add: fst_resolve_accel delivered_def)
    have n: "keyval_to_lower tk (event_keyval event) \<notin> dialog_keys"
      using l False by (auto simp: lower_apart_def)
    show ?thesis
    proof (cases "accelerator_valid tk (fst (resolve_accel tk event)) (snd (resolve_accel tk event))")
      case True
      then have "result_keyval (dialog w') = Some (fst (resolve_accel tk event))"
        using valid_combo_recorded [where tk = tk and event = event and labels = labels and w = w]
          press False r by (auto simp: dialog_keys_def)
      then show ?thesis using k n by auto
    next
      case inv: False
      then have "w' = w"
        using press False r
        by (simp add: edit_dialog_key_press_cb_def case_prod_unfold Let_def dialog_keys_def)
      then show ?thesis using p by simp
    qed
  qed
qed

text \<open>
  C10. A key press that is not a modifier key and whose key is Return, Escape or
  BackSpace issues the response OK, Cancel or Delete, whatever the modifier state,
  and is marked handled; the layout's translation plays no part in the result, and
  the response destroys the dialog and leaves the pending key and modifiers as they
  were. So the pending result never holds one of the three keys: when it holds none
  before a key event that the toolkit delivers, it holds none after it. (The one
  error a response can end in is a pending key without modifiers, which the handler
  never stores.)
\<close>

theorem dialog_keys_respond:
  "(event_type event = KEY_PRESS \<and> \<not> event_is_modifier event
      \<and> (event_keyval event, r) \<in> {(KEY_Return, OK), (KEY_Escape, CANCEL), (KEY_BackSpace, REJECT)}
    \<longrightarrow> edit_dialog_key_press_cb tk labels w event = handled (dialog_response w r)
        \<and> (case dialog_response w r of
              Inl err \<Rightarrow> err = TypeError \<and> r = OK \<and> result_keyval (dialog w) \<noteq> None
                           \<and> result_mods (dialog w) = None
            | Inr w' \<Rightarrow> dialog w' = (dialog w)\<lparr>destroyed := True\<rparr>
                          \<and> widget_removed (editable w')))
   \<and> (delivered tk event \<and> lower_apart tk (event_keyval event)
        \<and> result_keyval (dialog w) \<notin> Some ` dialog_keys
    \<longrightarrow> (\<forall>h w'. edit_dialog_key_press_cb tk labels w event = Inr (h, w')
           \<longrightarrow> result_keyval (dialog w') \<notin> Some ` dialog_keys))"
proof (intro conjI impI allI)
  assume a: "event_type event = KEY_PRESS \<and> \<not> event_is_modifier event
      \<and> (event_keyval event, r) \<in> {(KEY_Return, OK), (KEY_Escape, CANCEL), (KEY_BackSpace, REJECT)}"
  then show "edit_dialog_key_press_cb tk labels w event = handled (dialog_response w r)"
    by (intro dialog_key_press) simp_all
  show "case dialog_response w r of
              Inl err \<Rightarrow> err = TypeError \<and> r = OK \<and> result_keyval (dialog w) \<noteq> None
                           \<and> result_mods (dialog w) = None
            | Inr w' \<Rightarrow> dialog w' = (dialog w)\<lparr>destroyed := True\<rparr>
                          \<and> widget_removed (editable w')"
    using response_cb_result [where w = w and r = r and path = "dialog_accel_path (dialog w)"]
    by (simp add: dialog_response_def)
next
  fix h w'
  assume "delivered tk event \<and> lower_apart tk (event_keyval event)
        \<and> result_keyval (dialog w) \<notin> Some ` dialog_keys"
    and "edit_dialog_key_press_cb tk labels w event = Inr (h, w')"
  then show "result_keyval (dialog w') \<notin> Some ` dialog_keys"
    using key_press_keeps_dialog_keys_out by blast
qed

theorem dialog_keys_respond_witness:
  "event_type (press KEY_Escape 9 0 False) = KEY_PRESS
   \<and> \<not> event_is_modifier (press KEY_Escape 9 0 False)
   \<and> (event_keyval (press KEY_Escape 9 0 False), CANCEL)
        \<in> {(KEY_Return, OK), (KEY_Escape, CANCEL), (KEY_BackSpace, REJECT)}
   \<and> edit_dialog_key_press_cb tk_us Map.empty ui_start (press KEY_Escape 9 0 False)
        = handled (dialog_response ui_start CANCEL)
   \<and> dialog_response ui_start CANCEL =
        Inr (ui_start\<lparr>editable := (editable ui_start)\<lparr>widget_removed := True\<rparr>,
                      dialog := (dialog ui_start)\<lparr>destroyed := True\<rparr>\<rparr>)
   \<and> delivered tk_us (press 74 44 1 False) \<and> lower_apart tk_us (event_keyval (press 74 44 1 False))
   \<and> result_keyval (dialog ui_start) \<notin> Some ` dialog_keys
   \<and> (\<exists>w'. edit_dialog_key_press_cb tk_us Map.empty ui_start (press 74 44 1 False) = Inr (True, w')
          \<and> result_keyval (dialog w') \<notin> Some ` dialog_keys)"
proof -
  have a: "event_type (press KEY_Escape 9 0 False) = KEY_PRESS
      \<and> \<not> event_is_modifier (press KEY_Escape 9 0 False)
      \<and> (event_keyval (press KEY_Escape 9 0 False), CANCEL)
        \<in> {(KEY_Return, OK), (KEY_Escape, CANCEL), (KEY_BackSpace, REJECT)}"
    by (simp add: press_def)
  have b1: "delivered tk_us (press 74 44 1 False)"
    by (simp add: press_def delivered_def tk_us_def us_layout_def)
  have b2: "lower_apart tk_us (event_keyval (press 74 44 1 False))"
    by (simp add: press_def lower_apart_def tk_us_def dialog_keys_def
        KEY_Return_def KEY_Escape_def KEY_BackSpace_def)
  have b3: "result_keyval (dialog ui_start) \<notin> Some ` dialog_keys"
    by (simp add: ui_start_def accel_editing_started_cb_def
        edit_dialog_set_standard_hint_def edit_dialog_set_hint_def)
  have c: "dialog_response ui_start CANCEL =
        Inr (ui_start\<lparr>editable := (editable ui_start)\<lparr>widget_removed := True\<rparr>,
                      dialog := (dialog ui_start)\<lparr>destroyed := True\<rparr>\<rparr>)"
    by (simp add: dialog_response_def edit_dialog_response_cb_def Let_def)
  have t1: "edit_dialog_key_press_cb tk_us Map.empty ui_start (press KEY_Escape 9 0 False)
        = handled (dialog_response ui_start CANCEL)"
    using dialog_keys_respond [where event = "press KEY_Escape 9 0 False" and r = CANCEL
        and tk = tk_us and labels = Map.empty and w = ui_start, THEN conjunct1, THEN mp, OF a]
    by (rule conjunct1)
  have t2: "\<forall>h w'. edit_dialog_key_press_cb tk_us Map.empty ui_start (press 74 44 1 False) = Inr (h, w')
          \<longrightarrow> result_keyval (dialog w') \<notin> Some ` dialog_keys"
    using b1 b2 b3
    by (intro dialog_keys_respond [where event = "press 74 44 1 False" and r = CANCEL
        and tk = tk_us and labels = Map.empty and w = ui_start, THEN conjunct2, THEN mp] conjI)
  have "\<exists>w'. edit_dialog_key_press_cb tk_us Map.empty ui_start (press 74 44 1 False) = Inr (True, w')"
    using valid_combo_recorded [where tk = tk_us and event = "press 74 44 1 False"
        and labels = Map.empty and w = ui_start]
    by (simp add: press_def resolve_accel_def tk_us_def us_layout_def KEY_Return_def
        KEY_Escape_def KEY_BackSpace_def) blast
  then have t3: "\<exists>w'. edit_dialog_key_press_cb tk_us Map.empty ui_start (press 74 44 1 False) = Inr (True, w')
          \<and> result_keyval (dialog w') \<notin> Some ` dialog_keys"
    using t2 by blast
  show ?thesis using a b1 b2 b3 c t1 t3 by (intro conjI) blast+
qed

text \<open>
  The press has to be one that is not a modifier key: a press with the modifier flag
  set and the key Return takes the earlier branch of line 271, and no response is
  issued.
\<close>

theorem dialog_keys_respond_counterexample:
  "event_type (press KEY_Return 36 0 True) = KEY_PRESS
   \<and> event_keyval (press KEY_Return 36 0 True) = KEY_Return
   \<and> edit_dialog_key_press_cb tk_us Map.empty ui_start (press KEY_Return 36 0 True)
        = Inr (False, ui_start)
   \<and> \<not> destroyed (dialog ui_start)"
  by (simp add: press_def edit_dialog_key_press_cb_def ui_start_def accel_editing_started_cb_def
      edit_dialog_set_standard_hint_def edit_dialog_set_hint_def)

end
